theory Spec2Isabelle
  imports Main "HOL-Library.Word"
begin

section \<open>Runtime value handles and the runtime interface\<close>

text \<open>
  Modelled from the spec: \<^verbatim>\<open>jerry_value_t\<close> is declared in the runtime's headers, which
  are not among the sources; the spec calls it an opaque reference-counted handle. It is
  taken as a 32-bit word: the code only passes handles on, and nothing below depends on
  the width. The loop index \<^verbatim>\<open>idx\<close> and the count of registered entries are
  \<^verbatim>\<open>uint32_t\<close> in the code, so \<^verbatim>\<open>idx++\<close> wraps around at \<open>2 ^ 32\<close>.
\<close>

type_synonym jerry_value_t = "32 word"
type_synonym uint32_t = "32 word"

text \<open>
  Every release is logged with the handle and with the source expression it was read
  from: the transient name handle (\<^verbatim>\<open>prop_name\<close>), the value of the entry at an index
  (\<^verbatim>\<open>entries[idx].value\<close>), or the handle an operation returned (\<^verbatim>\<open>result\<close>,
  \<^verbatim>\<open>has_prop_val\<close>).
\<close>

datatype role = Prop_name | Entry_value nat | Op_result

text \<open>
  The calls into the runtime that create, use or release a handle, with their arguments
  and the handle they returned.
\<close>

datatype call =
    String_sz string jerry_value_t
  | Object_set jerry_value_t jerry_value_t jerry_value_t jerry_value_t
  | Object_get jerry_value_t jerry_value_t jerry_value_t
  | Object_has jerry_value_t jerry_value_t jerry_value_t
  | Value_free role jerry_value_t

text \<open>
  The runtime functions the code calls are not among the sources: the runtime is a
  parameter. What a call returns may depend on every call made before it (the first
  argument is the log so far), so any deterministic runtime is an instance.
  The spec has a neutral "no error" handle and no operation that creates it:
  \<^verbatim>\<open>jerry_undefined ()\<close> is taken as that constant. The three type tests inspect the
  handle only. Neither is logged.
\<close>

record jerry_api =
  jerry_string_sz :: "call list \<Rightarrow> string \<Rightarrow> jerry_value_t"
  jerry_object_set :: "call list \<Rightarrow> jerry_value_t \<Rightarrow> jerry_value_t \<Rightarrow> jerry_value_t \<Rightarrow> jerry_value_t"
  jerry_object_get :: "call list \<Rightarrow> jerry_value_t \<Rightarrow> jerry_value_t \<Rightarrow> jerry_value_t"
  jerry_object_has :: "call list \<Rightarrow> jerry_value_t \<Rightarrow> jerry_value_t \<Rightarrow> jerry_value_t"
  jerry_undefined :: jerry_value_t
  jerry_value_is_boolean :: "jerry_value_t \<Rightarrow> bool"
  jerry_value_is_exception :: "jerry_value_t \<Rightarrow> bool"
  jerry_value_is_true :: "jerry_value_t \<Rightarrow> bool"

text \<open>
  The state threaded through the code: the log of runtime calls, oldest first, and the
  indices at which the entry table has been read.
\<close>

record state =
  calls :: "call list"
  reads :: "nat list"

definition log_call :: "call \<Rightarrow> state \<Rightarrow> state" where
  "log_call c st = st\<lparr>calls := calls st @ [c]\<rparr>"

definition string_sz :: "jerry_api \<Rightarrow> string \<Rightarrow> state \<Rightarrow> jerry_value_t \<times> state" where
  "string_sz rt str st =
     (let h = jerry_string_sz rt (calls st) str in (h, log_call (String_sz str h) st))"

definition object_set ::
  "jerry_api \<Rightarrow> jerry_value_t \<Rightarrow> jerry_value_t \<Rightarrow> jerry_value_t \<Rightarrow> state \<Rightarrow> jerry_value_t \<times> state" where
  "object_set rt obj key v st =
     (let r = jerry_object_set rt (calls st) obj key v in (r, log_call (Object_set obj key v r) st))"

definition object_get ::
  "jerry_api \<Rightarrow> jerry_value_t \<Rightarrow> jerry_value_t \<Rightarrow> state \<Rightarrow> jerry_value_t \<times> state" where
  "object_get rt obj key st =
     (let r = jerry_object_get rt (calls st) obj key in (r, log_call (Object_get obj key r) st))"

definition object_has ::
  "jerry_api \<Rightarrow> jerry_value_t \<Rightarrow> jerry_value_t \<Rightarrow> state \<Rightarrow> jerry_value_t \<times> state" where
  "object_has rt obj key st =
     (let r = jerry_object_has rt (calls st) obj key in (r, log_call (Object_has obj key r) st))"

definition value_free :: "role \<Rightarrow> jerry_value_t \<Rightarrow> state \<Rightarrow> state" where
  "value_free ro h st = log_call (Value_free ro h) st"

section \<open>Property entries and the registration result\<close>

text \<open>
  An entry is a \<^verbatim>\<open>(name, value)\<close> pair, the fields \<^verbatim>\<open>name\<close> and \<^verbatim>\<open>value\<close> of the code;
  the name is a C string pointer, \<open>None\<close> when it is \<^verbatim>\<open>NULL\<close> (the sentinel).
\<close>

record jerryx_property_entry =
  entry_name :: "string option"
  entry_value :: jerry_value_t

text \<open>
  Modelled from the spec: the declaration of \<^verbatim>\<open>jerryx_register_result\<close> is in
  \<^verbatim>\<open>jerryscript-ext/handler.h\<close>, which is not among the sources. The code builds it
  positionally as \<^verbatim>\<open>{ VALUE, IDX }\<close> and reads its field \<^verbatim>\<open>registered\<close>; the spec names
  the first field the outcome handle.
\<close>

record jerryx_register_result =
  outcome :: jerry_value_t
  registered :: uint32_t

text \<open>
  The entry table is a C array with no length: reading \<^verbatim>\<open>entries[idx]\<close> beyond the
  array is undefined behaviour, an error of the model.
\<close>

datatype error = Out_of_bounds nat

definition read_entry ::
  "jerryx_property_entry list \<Rightarrow> uint32_t \<Rightarrow> state \<Rightarrow> error + jerryx_property_entry \<times> state" where
  "read_entry entries idx st =
     (if unat idx < length entries
      then Inr (entries ! unat idx, st\<lparr>reads := reads st @ [unat idx]\<rparr>)
      else Inl (Out_of_bounds (unat idx)))"

section \<open>Batch registration and cleanup\<close>

text \<open>
  The \<^verbatim>\<open>for\<close> loop of \<^verbatim>\<open>jerryx_set_properties\<close>. Each evaluation of the loop condition
  \<^verbatim>\<open>entries[idx].name != NULL\<close> takes one unit of fuel; \<open>None\<close> means the fuel ran out
  before the loop returned.
\<close>

fun set_properties_loop ::
  "jerry_api \<Rightarrow> nat \<Rightarrow> jerry_value_t \<Rightarrow> jerryx_property_entry list \<Rightarrow> uint32_t \<Rightarrow> state
     \<Rightarrow> (error + jerryx_register_result \<times> state) option" where
  "set_properties_loop rt 0 target_object entries idx st = None"
| "set_properties_loop rt (Suc fuel) target_object entries idx st =
     (case read_entry entries idx st of
        Inl e \<Rightarrow> Some (Inl e)
      | Inr (entry, st) \<Rightarrow>
          (case entry_name entry of
             None \<Rightarrow> Some (Inr (\<lparr>outcome = jerry_undefined rt, registered = idx\<rparr>, st))
           | Some str \<Rightarrow>
               (let (prop_name, st) = string_sz rt str st;
                    (result, st) = object_set rt target_object prop_name (entry_value entry) st;
                    st = value_free Prop_name prop_name st
                in if \<not> jerry_value_is_boolean rt result
                   then Some (Inr (\<lparr>outcome = result, registered = idx\<rparr>, st))
                   else (let st = value_free (Entry_value (unat idx)) (entry_value entry) st;
                             st = value_free Op_result result st
                         in set_properties_loop rt fuel target_object entries (idx + 1) st))))"

text \<open>\<^verbatim>\<open>jerryx_set_properties\<close>: the table pointer may be \<^verbatim>\<open>NULL\<close> (\<open>None\<close>).\<close>

definition jerryx_set_properties ::
  "jerry_api \<Rightarrow> nat \<Rightarrow> jerry_value_t \<Rightarrow> jerryx_property_entry list option \<Rightarrow> state
     \<Rightarrow> (error + jerryx_register_result \<times> state) option" where
  "jerryx_set_properties rt fuel target_object entries st =
     (case entries of
        None \<Rightarrow> Some (Inr (\<lparr>outcome = jerry_undefined rt, registered = 0\<rparr>, st))
      | Some es \<Rightarrow> set_properties_loop rt fuel target_object es 0 st)"

text \<open>The \<^verbatim>\<open>for\<close> loop of \<^verbatim>\<open>jerryx_release_property_entry\<close>, with fuel as above.\<close>

fun release_loop ::
  "nat \<Rightarrow> jerryx_property_entry list \<Rightarrow> uint32_t \<Rightarrow> state \<Rightarrow> (error + state) option" where
  "release_loop 0 entries idx st = None"
| "release_loop (Suc fuel) entries idx st =
     (case read_entry entries idx st of
        Inl e \<Rightarrow> Some (Inl e)
      | Inr (entry, st) \<Rightarrow>
          (case entry_name entry of
             None \<Rightarrow> Some (Inr st)
           | Some str \<Rightarrow>
               release_loop fuel entries (idx + 1)
                 (value_free (Entry_value (unat idx)) (entry_value entry) st)))"

definition jerryx_release_property_entry ::
  "nat \<Rightarrow> jerryx_property_entry list option \<Rightarrow> jerryx_register_result \<Rightarrow> state
     \<Rightarrow> (error + state) option" where
  "jerryx_release_property_entry fuel entries register_result st =
     (case entries of
        None \<Rightarrow> Some (Inr st)
      | Some es \<Rightarrow> release_loop fuel es (registered register_result) st)"

section \<open>Named-property accessors\<close>

definition jerryx_set_property_str ::
  "jerry_api \<Rightarrow> jerry_value_t \<Rightarrow> string \<Rightarrow> jerry_value_t \<Rightarrow> state \<Rightarrow> jerry_value_t \<times> state" where
  "jerryx_set_property_str rt target_object str v st =
     (let (property_name_val, st) = string_sz rt str st;
          (result_val, st) = object_set rt target_object property_name_val v st;
          st = value_free Prop_name property_name_val st
      in (result_val, st))"

definition jerryx_get_property_str ::
  "jerry_api \<Rightarrow> jerry_value_t \<Rightarrow> string \<Rightarrow> state \<Rightarrow> jerry_value_t \<times> state" where
  "jerryx_get_property_str rt target_object str st =
     (let (prop_name, st) = string_sz rt str st;
          (result_val, st) = object_get rt target_object prop_name st;
          st = value_free Prop_name prop_name st
      in (result_val, st))"

definition jerryx_has_property_str ::
  "jerry_api \<Rightarrow> jerry_value_t \<Rightarrow> string \<Rightarrow> state \<Rightarrow> bool \<times> state" where
  "jerryx_has_property_str rt target_object str st =
     (let has_property = False;
          (prop_name, st) = string_sz rt str st;
          (has_prop_val, st) = object_has rt target_object prop_name st;
          has_property =
            (if \<not> jerry_value_is_exception rt has_prop_val
             then jerry_value_is_true rt has_prop_val else has_property);
          st = value_free Op_result has_prop_val st;
          st = value_free Prop_name prop_name st
      in (has_property, st))"

section \<open>Observations on the call log\<close>

text \<open>The calls a run appended to the log, and the table indices it read.\<close>

definition new_calls :: "state \<Rightarrow> state \<Rightarrow> call list" where
  "new_calls st st' = drop (length (calls st)) (calls st')"

definition new_reads :: "state \<Rightarrow> state \<Rightarrow> nat list" where
  "new_reads st st' = drop (length (reads st)) (reads st')"

text \<open>The handles returned by \<^verbatim>\<open>jerry_string_sz\<close> calls, in call order.\<close>

fun created_by :: "call \<Rightarrow> jerry_value_t list" where
  "created_by (String_sz str h) = [h]"
| "created_by _ = []"

definition created :: "call list \<Rightarrow> jerry_value_t list" where
  "created cs = concat (map created_by cs)"

text \<open>The handles released in a given role, in call order.\<close>

fun released_as :: "role \<Rightarrow> call \<Rightarrow> jerry_value_t list" where
  "released_as ro (Value_free ro' h) = (if ro' = ro then [h] else [])"
| "released_as ro _ = []"

definition freed :: "role \<Rightarrow> call list \<Rightarrow> jerry_value_t list" where
  "freed ro cs = concat (map (released_as ro) cs)"

text \<open>The handles released, whatever the role, in call order.\<close>

fun released_by :: "call \<Rightarrow> jerry_value_t list" where
  "released_by (Value_free ro h) = [h]"
| "released_by _ = []"

definition all_freed :: "call list \<Rightarrow> jerry_value_t list" where
  "all_freed cs = concat (map released_by cs)"

text \<open>The \<^verbatim>\<open>jerry_object_set\<close> calls, in call order, each as (value passed, result returned).\<close>

fun set_of :: "call \<Rightarrow> (jerry_value_t \<times> jerry_value_t) list" where
  "set_of (Object_set obj key v r) = [(v, r)]"
| "set_of _ = []"

definition sets :: "call list \<Rightarrow> (jerry_value_t \<times> jerry_value_t) list" where
  "sets cs = concat (map set_of cs)"

text \<open>
  The first entry with a \<^verbatim>\<open>NULL\<close> name is at index \<open>s\<close>, an index of the code's index
  type \<^verbatim>\<open>uint32_t\<close>; the array may go on after it. A table whose first \<^verbatim>\<open>NULL\<close> name
  lies beyond the range of \<^verbatim>\<open>uint32_t\<close> has its sentinel at no \<open>s\<close>: the index of the
  loops wraps around before it reaches one.
\<close>

definition sentinel_at :: "jerryx_property_entry list \<Rightarrow> uint32_t \<Rightarrow> bool" where
  "sentinel_at entries s \<longleftrightarrow>
     unat s < length entries \<and> entry_name (entries ! unat s) = None \<and>
     (\<forall>i < unat s. entry_name (entries ! i) \<noteq> None)"

text \<open>
  What a run of the registration loop that started at index \<open>i0\<close> and returned \<open>res\<close>
  has appended to the log: one name handle per set call, each released; the values of the
  entries from \<open>i0\<close> up to \<open>registered res\<close> released once each and no other; the set
  calls made for the entries in table order; the results of all set calls released except
  the last one when the loop stopped before the sentinel, which is the outcome; three
  releases for each entry counted, and one more (the name handle) when the loop stopped
  before the sentinel.
\<close>

definition loop_post ::
  "jerry_api \<Rightarrow> jerryx_property_entry list \<Rightarrow> nat \<Rightarrow> nat \<Rightarrow> jerryx_register_result
     \<Rightarrow> call list \<Rightarrow> bool" where
  "loop_post rt entries s i0 res evs \<longleftrightarrow>
     (let n = unat (registered res) in
      i0 \<le> n \<and> n \<le> s \<and>
      created evs = freed Prop_name evs \<and>
      length (created evs) = length (sets evs) \<and>
      (\<forall>i. freed (Entry_value i) evs =
         (if i0 \<le> i \<and> i < n then [entry_value (entries ! i)] else [])) \<and>
      map fst (sets evs) = map (\<lambda>i. entry_value (entries ! i)) [i0 ..< i0 + length (sets evs)] \<and>
      map snd (sets evs) = freed Op_result evs @ (if n < s then [outcome res] else []) \<and>
      length (freed Op_result evs) = n - i0 \<and>
      (\<forall>r \<in> set (freed Op_result evs). jerry_value_is_boolean rt r) \<and>
      (n < s \<longrightarrow> \<not> jerry_value_is_boolean rt (outcome res)) \<and>
      (n = s \<longrightarrow> outcome res = jerry_undefined rt) \<and>
      length (all_freed evs) = 3 * (n - i0) + (if n < s then 1 else 0))"

section \<open>A concrete runtime and concrete tables\<close>

text \<open>
  A small runtime to run the functions on: handle 0 is undefined, 1 is false, 2 is true
  and 1001 is an exception. Setting the value 13 throws, setting the value 14 answers
  false, any other set answers true. Object 8 has every property, object 9 throws on
  the existence check, any other object has none.
\<close>

definition demo_api :: jerry_api where
  "demo_api = \<lparr>
     jerry_string_sz = (\<lambda>cs str. 100 + of_nat (length cs)),
     jerry_object_set = (\<lambda>cs obj key v. if v = 13 then 1001 else if v = 14 then 1 else 2),
     jerry_object_get = (\<lambda>cs obj key. 50),
     jerry_object_has = (\<lambda>cs obj key. if obj = 9 then 1001 else if obj = 8 then 2 else 1),
     jerry_undefined = 0,
     jerry_value_is_boolean = (\<lambda>v. v = 1 \<or> v = 2),
     jerry_value_is_exception = (\<lambda>v. v = 1001),
     jerry_value_is_true = (\<lambda>v. v = 2) \<rparr>"

text \<open>Three entries \<^verbatim>\<open>a\<close>, \<^verbatim>\<open>b\<close>, \<^verbatim>\<open>c\<close> and the sentinel; the value of \<^verbatim>\<open>b\<close> is a parameter.\<close>

definition demo_entries :: "jerry_value_t \<Rightarrow> jerryx_property_entry list" where
  "demo_entries v =
     [\<lparr>entry_name = Some ''a'', entry_value = 11\<rparr>,
      \<lparr>entry_name = Some ''b'', entry_value = v\<rparr>,
      \<lparr>entry_name = Some ''c'', entry_value = 12\<rparr>,
      \<lparr>entry_name = None, entry_value = 0\<rparr>]"

definition demo_fuel :: nat where
  "demo_fuel = Suc (Suc (Suc (Suc 0)))"

definition st0 :: state where
  "st0 = \<lparr>calls = [], reads = []\<rparr>"

text \<open>The state after registering \<open>demo_entries 13\<close> (the set of \<^verbatim>\<open>b\<close> throws).\<close>

definition demo_fail_state :: state where
  "demo_fail_state =
     \<lparr>calls = [String_sz ''a'' 100, Object_set 7 100 11 2, Value_free Prop_name 100,
               Value_free (Entry_value 0) 11, Value_free Op_result 2,
               String_sz ''b'' 105, Object_set 7 105 13 1001, Value_free Prop_name 105],
      reads = [0, 1]\<rparr>"

text \<open>The state after registering \<open>demo_entries 14\<close> (the set of \<^verbatim>\<open>b\<close> answers false).\<close>

definition demo_false_state :: state where
  "demo_false_state =
     \<lparr>calls = [String_sz ''a'' 100, Object_set 7 100 11 2, Value_free Prop_name 100,
               Value_free (Entry_value 0) 11, Value_free Op_result 2,
               String_sz ''b'' 105, Object_set 7 105 14 1, Value_free Prop_name 105,
               Value_free (Entry_value 1) 14, Value_free Op_result 1,
               String_sz ''c'' 110, Object_set 7 110 12 2, Value_free Prop_name 110,
               Value_free (Entry_value 2) 12, Value_free Op_result 2],
      reads = [0, 1, 2, 3]\<rparr>"

text \<open>The state after the cleanup that follows the failed registration.\<close>

definition demo_released_state :: state where
  "demo_released_state =
     \<lparr>calls = calls demo_fail_state @
               [Value_free (Entry_value 1) 13, Value_free (Entry_value 2) 12],
      reads = [0, 1, 1, 2, 3]\<rparr>"

section \<open>The log observations distribute over the log\<close>

lemma created_simps [simp]:
  "created [] = []" "created (c # cs) = created_by c @ created cs"
  "created (xs @ ys) = created xs @ created ys"
  by (simp_all add: created_def)

lemma freed_simps [simp]:
  "freed ro [] = []" "freed ro (c # cs) = released_as ro c @ freed ro cs"
  "freed ro (xs @ ys) = freed ro xs @ freed ro ys"
  by (simp_all add: freed_def)

lemma sets_simps [simp]:
  "sets [] = []" "sets (c # cs) = set_of c @ sets cs"
  "sets (xs @ ys) = sets xs @ sets ys"
  by (simp_all add: sets_def)

lemma all_freed_simps [simp]:
  "all_freed [] = []" "all_freed (c # cs) = released_by c @ all_freed cs"
  "all_freed (xs @ ys) = all_freed xs @ all_freed ys"
  by (simp_all add: all_freed_def)

lemma freed_released_range:
  "freed (Entry_value i) (map (\<lambda>j. Value_free (Entry_value j) (f j)) [a ..< b]) =
     (if a \<le> i \<and> i < b then [f i] else [])"
  by (induction b) auto

section \<open>One iteration of the registration loop\<close>

lemma loop_sentinel:
  assumes "unat idx < length entries" "entry_name (entries ! unat idx) = None"
  shows "set_properties_loop rt (Suc fuel) obj entries idx st =
     Some (Inr (\<lparr>outcome = jerry_undefined rt, registered = idx\<rparr>,
                st\<lparr>reads := reads st @ [unat idx]\<rparr>))"
  using assms by (simp add: read_entry_def)

lemma loop_fail:
  assumes "unat idx < length entries" "entry_name (entries ! unat idx) = Some str"
    and "h = jerry_string_sz rt (calls st) str"
    and "r = jerry_object_set rt (calls st @ [String_sz str h]) obj h (entry_value (entries ! unat idx))"
    and "\<not> jerry_value_is_boolean rt r"
  shows "set_properties_loop rt (Suc fuel) obj entries idx st =
     Some (Inr (\<lparr>outcome = r, registered = idx\<rparr>,
                st\<lparr>reads := reads st @ [unat idx],
                   calls := calls st @ [String_sz str h,
                      Object_set obj h (entry_value (entries ! unat idx)) r,
                      Value_free Prop_name h]\<rparr>))"
  using assms
  by (simp add: read_entry_def string_sz_def object_set_def value_free_def log_call_def Let_def)

lemma loop_continue:
  assumes "unat idx < length entries" "entry_name (entries ! unat idx) = Some str"
    and "h = jerry_string_sz rt (calls st) str"
    and "r = jerry_object_set rt (calls st @ [String_sz str h]) obj h (entry_value (entries ! unat idx))"
    and "jerry_value_is_boolean rt r"
  shows "set_properties_loop rt (Suc fuel) obj entries idx st =
     set_properties_loop rt fuel obj entries (idx + 1)
       (st\<lparr>reads := reads st @ [unat idx],
            calls := calls st @ [String_sz str h,
               Object_set obj h (entry_value (entries ! unat idx)) r,
               Value_free Prop_name h,
               Value_free (Entry_value (unat idx)) (entry_value (entries ! unat idx)),
               Value_free Op_result r]\<rparr>)"
  using assms
  by (simp add: read_entry_def string_sz_def object_set_def value_free_def log_call_def Let_def)

text \<open>Below the sentinel, and with the sentinel below \<open>2 ^ 32\<close>, \<^verbatim>\<open>idx++\<close> does not wrap.\<close>

lemma unat_succ:
  "unat (idx :: uint32_t) < s \<Longrightarrow> s < 2 ^ 32 \<Longrightarrow> unat (idx + 1) = Suc (unat idx)"
  by (simp add: unat_word_ariths)

lemma post_sentinel:
  "unat idx = s \<Longrightarrow>
   loop_post rt entries s (unat idx) \<lparr>outcome = jerry_undefined rt, registered = idx\<rparr> []"
  by (simp add: loop_post_def)

lemma post_fail:
  "unat idx < s \<Longrightarrow> \<not> jerry_value_is_boolean rt r \<Longrightarrow>
   loop_post rt entries s (unat idx) \<lparr>outcome = r, registered = idx\<rparr>
     [String_sz str h, Object_set obj h (entry_value (entries ! unat idx)) r, Value_free Prop_name h]"
  by (simp add: loop_post_def)

lemma post_continue:
  assumes "loop_post rt entries s (Suc i0) res evs" "jerry_value_is_boolean rt r"
  shows "loop_post rt entries s i0 res
     ([String_sz str h, Object_set obj h (entry_value (entries ! i0)) r, Value_free Prop_name h,
       Value_free (Entry_value i0) (entry_value (entries ! i0)), Value_free Op_result r] @ evs)"
  using assms
  apply (simp add: loop_post_def Let_def)
  apply (intro conjI allI impI)
  apply (auto simp: upt_rec [of i0] Suc_diff_le)
  done

lemma loop_postD:
  assumes "loop_post rt entries s i0 res evs"
  shows "i0 \<le> unat (registered res)"
    and "unat (registered res) \<le> s"
    and "created evs = freed Prop_name evs"
    and "length (created evs) = length (sets evs)"
    and "\<And>i. freed (Entry_value i) evs =
           (if i0 \<le> i \<and> i < unat (registered res) then [entry_value (entries ! i)] else [])"
    and "map fst (sets evs) = map (\<lambda>i. entry_value (entries ! i)) [i0 ..< i0 + length (sets evs)]"
    and "map snd (sets evs) =
           freed Op_result evs @ (if unat (registered res) < s then [outcome res] else [])"
    and "length (freed Op_result evs) = unat (registered res) - i0"
    and "\<And>r. r \<in> set (freed Op_result evs) \<Longrightarrow> jerry_value_is_boolean rt r"
    and "unat (registered res) < s \<Longrightarrow> \<not> jerry_value_is_boolean rt (outcome res)"
    and "unat (registered res) = s \<Longrightarrow> outcome res = jerry_undefined rt"
    and "length (all_freed evs) =
           3 * (unat (registered res) - i0) + (if unat (registered res) < s then 1 else 0)"
  using assms unfolding loop_post_def Let_def by blast+

section \<open>The registration loop returns, and what it has logged\<close>

lemma loop_total:
  assumes "sentinel_at entries s"
  shows "unat idx \<le> unat s \<Longrightarrow> unat s - unat idx < fuel \<Longrightarrow>
     \<exists>res evs. set_properties_loop rt fuel obj entries idx st =
        Some (Inr (res, st\<lparr>reads := reads st @ [unat idx ..< Suc (unat (registered res))],
                           calls := calls st @ evs\<rparr>)) \<and>
        loop_post rt entries (unat s) (unat idx) res evs"
proof (induction fuel arbitrary: idx st)
  case 0
  then show ?case by simp
next
  case (Suc fuel)
  from assms have s_len: "unat s < length entries"
    and s_name: "entry_name (entries ! unat s) = None"
    and before: "\<And>i. i < unat s \<Longrightarrow> entry_name (entries ! i) \<noteq> None"
    by (simp_all add: sentinel_at_def)
  have bound: "unat s < 2 ^ 32" using unsigned_less [of s, where ?'a = nat] by simp
  from Suc.prems s_len have inb: "unat idx < length entries" by simp
  show ?case
  proof (cases "unat idx = unat s")
    case True
    with s_name have "entry_name (entries ! unat idx) = None" by simp
    from loop_sentinel [OF inb this, of rt fuel obj st] post_sentinel [OF True, of rt entries]
    show ?thesis
      by (intro exI [of _ "\<lparr>outcome = jerry_undefined rt, registered = idx\<rparr>"] exI [of _ "[]"])
        simp
  next
    case False
    with Suc.prems have lt: "unat idx < unat s" by simp
    then obtain str where str: "entry_name (entries ! unat idx) = Some str"
      using before [of "unat idx"] by auto
    define h where "h = jerry_string_sz rt (calls st) str"
    define r where
      "r = jerry_object_set rt (calls st @ [String_sz str h]) obj h (entry_value (entries ! unat idx))"
    show ?thesis
    proof (cases "jerry_value_is_boolean rt r")
      case False
      from loop_fail [OF inb str h_def r_def False, of fuel]
        post_fail [OF lt False, of entries str h obj]
      show ?thesis
        by (intro exI [of _ "\<lparr>outcome = r, registered = idx\<rparr>"]
            exI [of _ "[String_sz str h, Object_set obj h (entry_value (entries ! unat idx)) r,
                        Value_free Prop_name h]"]) simp
    next
      case True
      define st5 where "st5 = st\<lparr>reads := reads st @ [unat idx],
            calls := calls st @ [String_sz str h,
               Object_set obj h (entry_value (entries ! unat idx)) r,
               Value_free Prop_name h,
               Value_free (Entry_value (unat idx)) (entry_value (entries ! unat idx)),
               Value_free Op_result r]\<rparr>"
      have step: "set_properties_loop rt (Suc fuel) obj entries idx st =
          set_properties_loop rt fuel obj entries (idx + 1) st5"
        unfolding st5_def by (rule loop_continue [OF inb str h_def r_def True])
      have nxt: "unat (idx + 1) = Suc (unat idx)" using lt bound by (rule unat_succ)
      have "unat (idx + 1) \<le> unat s" "unat s - unat (idx + 1) < fuel"
        using lt Suc.prems nxt by simp_all
      from Suc.IH [OF this, of st5] obtain res evs where
        run: "set_properties_loop rt fuel obj entries (idx + 1) st5 =
           Some (Inr (res, st5\<lparr>reads := reads st5 @ [unat (idx + 1) ..< Suc (unat (registered res))],
                           calls := calls st5 @ evs\<rparr>))"
        and post: "loop_post rt entries (unat s) (unat (idx + 1)) res evs" by blast
      from post have le: "Suc (unat idx) \<le> unat (registered res)"
        by (simp add: loop_post_def Let_def nxt)
      have rd: "[unat idx ..< Suc (unat (registered res))] =
          unat idx # [Suc (unat idx) ..< Suc (unat (registered res))]"
        using le by (simp add: upt_rec [of "unat idx"])
      from post_continue [OF post [unfolded nxt] True, of str h obj]
      have post': "loop_post rt entries (unat s) (unat idx) res
         ([String_sz str h, Object_set obj h (entry_value (entries ! unat idx)) r,
           Value_free Prop_name h,
           Value_free (Entry_value (unat idx)) (entry_value (entries ! unat idx)),
           Value_free Op_result r] @ evs)" .
      show ?thesis
        apply (intro exI [of _ res]
            exI [of _ "[String_sz str h, Object_set obj h (entry_value (entries ! unat idx)) r,
               Value_free Prop_name h,
               Value_free (Entry_value (unat idx)) (entry_value (entries ! unat idx)),
               Value_free Op_result r] @ evs"] conjI)
         apply (simp only: step run)
         apply (simp add: st5_def nxt rd del: upt_Suc)
        apply (rule post')
        done
    qed
  qed
qed

lemma set_properties_run:
  assumes "sentinel_at entries s" "unat s < fuel"
  shows "\<exists>res st'. jerryx_set_properties rt fuel obj (Some entries) st = Some (Inr (res, st')) \<and>
     new_reads st st' = [0 ..< Suc (unat (registered res))] \<and>
     loop_post rt entries (unat s) 0 res (new_calls st st')"
proof -
  from loop_total [OF assms(1), of 0 fuel rt obj st] assms(2)
  obtain res evs where run: "set_properties_loop rt fuel obj entries 0 st =
        Some (Inr (res, st\<lparr>reads := reads st @ [0 ..< Suc (unat (registered res))],
                           calls := calls st @ evs\<rparr>))"
    and post: "loop_post rt entries (unat s) 0 res evs" by auto
  show ?thesis
    apply (rule exI [of _ res])
    apply (rule exI [of _ "st\<lparr>reads := reads st @ [0 ..< Suc (unat (registered res))],
                              calls := calls st @ evs\<rparr>"])
    using run post
    by (simp add: jerryx_set_properties_def new_reads_def new_calls_def del: upt_Suc)
qed

text \<open>
  The \<open>k\<close>-th set call of a run is made for entry \<open>k\<close>; its result is a boolean when
  \<open>k\<close> is below the returned count, and otherwise it is the last call and its result is
  the outcome.
\<close>

lemma set_call_cases:
  assumes post: "loop_post rt entries s 0 res evs" and k: "k < length (sets evs)"
  shows "fst (sets evs ! k) = entry_value (entries ! k) \<and>
     (if k < unat (registered res)
      then jerry_value_is_boolean rt (snd (sets evs ! k))
      else k = unat (registered res) \<and> unat (registered res) < s \<and>
           length (sets evs) = Suc k \<and> snd (sets evs ! k) = outcome res \<and>
           \<not> jerry_value_is_boolean rt (snd (sets evs ! k)))"
proof -
  note D = loop_postD [OF post]
  let ?n = "unat (registered res)"
  have len: "length (sets evs) = ?n + (if ?n < s then 1 else 0)"
    using arg_cong [OF D(7), of length] D(8) by simp
  have "fst (sets evs ! k) = map fst (sets evs) ! k" using k by simp
  also have "\<dots> = entry_value (entries ! k)" using k by (simp add: D(6))
  finally have first: "fst (sets evs ! k) = entry_value (entries ! k)" .
  have snd_nth: "snd (sets evs ! k) =
      (freed Op_result evs @ (if ?n < s then [outcome res] else [])) ! k"
    using k D(7) by (metis nth_map)
  show ?thesis
  proof (cases "k < ?n")
    case True
    then have "snd (sets evs ! k) = freed Op_result evs ! k"
      using snd_nth D(8) by (simp add: nth_append)
    moreover have "freed Op_result evs ! k \<in> set (freed Op_result evs)"
      using True D(8) by simp
    ultimately show ?thesis using True first D(9) by simp
  next
    case False
    with k len have n_lt: "?n < s" and k_eq: "k = ?n" by (auto split: if_splits)
    then have "snd (sets evs ! k) = outcome res"
      using snd_nth D(8) by (simp add: nth_append)
    then show ?thesis using False first n_lt k_eq len D(10) by simp
  qed
qed

text \<open>
  The set calls of a run: one for each entry counted, and one more, the last, when the
  loop stopped before the sentinel; the call number \<open>k\<close> is made for entry \<open>k\<close>; the
  calls for the entries counted answered a boolean; the last call of a loop that stopped
  before the sentinel answered the outcome, which is not a boolean.
\<close>

lemma run_shape:
  assumes post: "loop_post rt entries (unat s) 0 res evs"
  shows "length (sets evs) = unat (registered res) + (if registered res \<noteq> s then 1 else 0)"
    and "\<forall>k < length (sets evs). fst (sets evs ! k) = entry_value (entries ! k)"
    and "\<forall>k < unat (registered res). jerry_value_is_boolean rt (snd (sets evs ! k))"
    and "registered res \<noteq> s \<longrightarrow>
           outcome res = snd (sets evs ! unat (registered res)) \<and>
           \<not> jerry_value_is_boolean rt (outcome res)"
    and "registered res = s \<longrightarrow> outcome res = jerry_undefined rt"
proof -
  note D = loop_postD [OF post]
  let ?n = "unat (registered res)"
  have ne: "registered res \<noteq> s \<longleftrightarrow> ?n < unat s"
    using D(2) by (auto simp add: word_unat_eq_iff)
  show len: "length (sets evs) = ?n + (if registered res \<noteq> s then 1 else 0)"
    using arg_cong [OF D(7), of length] D(8) ne by simp
  show "\<forall>k < length (sets evs). fst (sets evs ! k) = entry_value (entries ! k)"
    using set_call_cases [OF post] by blast
  show "\<forall>k < ?n. jerry_value_is_boolean rt (snd (sets evs ! k))"
  proof (intro allI impI)
    fix k assume k: "k < ?n"
    with len have "k < length (sets evs)" by simp
    from set_call_cases [OF post this] k show "jerry_value_is_boolean rt (snd (sets evs ! k))"
      by simp
  qed
  show "registered res \<noteq> s \<longrightarrow>
           outcome res = snd (sets evs ! ?n) \<and> \<not> jerry_value_is_boolean rt (outcome res)"
  proof
    assume a: "registered res \<noteq> s"
    with len have "?n < length (sets evs)" by simp
    from set_call_cases [OF post this] a ne D(10)
    show "outcome res = snd (sets evs ! ?n) \<and> \<not> jerry_value_is_boolean rt (outcome res)"
      by simp
  qed
  show "registered res = s \<longrightarrow> outcome res = jerry_undefined rt"
    using D(11) by simp
qed

section \<open>The cleanup loop returns, and what it has logged\<close>

lemma release_total:
  assumes "sentinel_at entries s"
  shows "unat idx \<le> unat s \<Longrightarrow> unat s - unat idx < fuel \<Longrightarrow>
     release_loop fuel entries idx st =
        Some (Inr (st\<lparr>reads := reads st @ [unat idx ..< Suc (unat s)],
                      calls := calls st @
                        map (\<lambda>i. Value_free (Entry_value i) (entry_value (entries ! i)))
                          [unat idx ..< unat s]\<rparr>))"
proof (induction fuel arbitrary: idx st)
  case 0
  then show ?case by simp
next
  case (Suc fuel)
  from assms have s_len: "unat s < length entries"
    and s_name: "entry_name (entries ! unat s) = None"
    and before: "\<And>i. i < unat s \<Longrightarrow> entry_name (entries ! i) \<noteq> None"
    by (simp_all add: sentinel_at_def)
  have bound: "unat s < 2 ^ 32" using unsigned_less [of s, where ?'a = nat] by simp
  from Suc.prems s_len have inb: "unat idx < length entries" by simp
  show ?case
  proof (cases "unat idx = unat s")
    case True
    with s_name inb show ?thesis by (simp add: read_entry_def)
  next
    case False
    with Suc.prems have lt: "unat idx < unat s" by simp
    then obtain str where str: "entry_name (entries ! unat idx) = Some str"
      using before [of "unat idx"] by auto
    have nxt: "unat (idx + 1) = Suc (unat idx)" using lt bound by (rule unat_succ)
    have "unat (idx + 1) \<le> unat s" "unat s - unat (idx + 1) < fuel"
      using lt Suc.prems nxt by simp_all
    note IH = Suc.IH [OF this]
    have rd: "[unat idx ..< Suc (unat s)] = unat idx # [Suc (unat idx) ..< Suc (unat s)]"
      and cl: "[unat idx ..< unat s] = unat idx # [Suc (unat idx) ..< unat s]"
      using lt by (simp_all add: upt_rec [of "unat idx"])
    show ?thesis
      using inb str
      by (simp add: read_entry_def value_free_def log_call_def IH nxt rd cl del: upt_Suc)
  qed
qed

section \<open>Runs on the concrete tables\<close>

lemma demo_sentinel: "sentinel_at (demo_entries v) 3"
  apply (simp add: sentinel_at_def demo_entries_def)
  apply (simp add: less_Suc_eq numeral_3_eq_3)
  done

lemma demo_enough_fuel: "unat (3 :: uint32_t) < demo_fuel"
  by (simp add: demo_fuel_def)

lemma demo_fail_run:
  "jerryx_set_properties demo_api demo_fuel 7 (Some (demo_entries 13)) st0 =
     Some (Inr (\<lparr>outcome = 1001, registered = 1\<rparr>, demo_fail_state))"
  by (simp add: jerryx_set_properties_def demo_api_def demo_entries_def st0_def demo_fuel_def
      demo_fail_state_def read_entry_def string_sz_def object_set_def value_free_def log_call_def)

lemma demo_false_run:
  "jerryx_set_properties demo_api demo_fuel 7 (Some (demo_entries 14)) st0 =
     Some (Inr (\<lparr>outcome = 0, registered = 3\<rparr>, demo_false_state))"
  by (simp add: jerryx_set_properties_def demo_api_def demo_entries_def st0_def demo_fuel_def
      demo_false_state_def read_entry_def string_sz_def object_set_def value_free_def log_call_def)

lemma demo_release_run:
  "jerryx_release_property_entry demo_fuel (Some (demo_entries 13))
     \<lparr>outcome = 1001, registered = 1\<rparr> demo_fail_state = Some (Inr demo_released_state)"
  by (simp add: jerryx_release_property_entry_def demo_entries_def demo_fuel_def
      demo_fail_state_def demo_released_state_def read_entry_def value_free_def log_call_def)

section \<open>Batch registration\<close>

text \<open>
  Claim C1. For a table whose first sentinel is at index \<open>s\<close> (a \<^verbatim>\<open>uint32_t\<close>, as every
  index of the code), \<^verbatim>\<open>jerryx_set_properties\<close> returns, having read the entries from 0
  to \<open>registered\<close> and made one \<^verbatim>\<open>jerry_object_set\<close> call for each of the entries it
  counted, in table order, and one more for the entry at \<open>registered\<close> when it stopped
  before the sentinel. The calls for the entries counted answered a boolean; a loop that
  stopped before the sentinel did so on a call that answered a non-boolean, which is the
  outcome; a loop that reached the sentinel returns the undefined value. The values
  released are those of the entries counted, once each, and no other. So if the \<open>k\<close>-th
  set call of the run answers a handle that is not a boolean, that call was made for
  entry \<open>k\<close> and is the last one: no later name handle is created and no later entry is
  read; the result holds that handle as outcome and \<open>k\<close> as count, and no value of an
  entry at an index \<open>\<ge> k\<close> has been released.
\<close>

theorem set_properties_first_failure:
  assumes "sentinel_at entries s" and "unat s < fuel"
  shows "\<exists>res st'. jerryx_set_properties rt fuel obj (Some entries) st = Some (Inr (res, st')) \<and>
    new_reads st st' = [0 ..< Suc (unat (registered res))] \<and>
    length (sets (new_calls st st')) =
      unat (registered res) + (if registered res \<noteq> s then 1 else 0) \<and>
    length (created (new_calls st st')) = length (sets (new_calls st st')) \<and>
    (\<forall>k < length (sets (new_calls st st')).
       fst (sets (new_calls st st') ! k) = entry_value (entries ! k)) \<and>
    (\<forall>k < unat (registered res).
       jerry_value_is_boolean rt (snd (sets (new_calls st st') ! k))) \<and>
    (registered res \<noteq> s \<longrightarrow>
       outcome res = snd (sets (new_calls st st') ! unat (registered res)) \<and>
       \<not> jerry_value_is_boolean rt (outcome res)) \<and>
    (registered res = s \<longrightarrow> outcome res = jerry_undefined rt) \<and>
    (\<forall>i. freed (Entry_value i) (new_calls st st') =
       (if i < unat (registered res) then [entry_value (entries ! i)] else [])) \<and>
    (\<forall>k. k < length (sets (new_calls st st')) \<and>
         \<not> jerry_value_is_boolean rt (snd (sets (new_calls st st') ! k)) \<longrightarrow>
       fst (sets (new_calls st st') ! k) = entry_value (entries ! k) \<and>
       length (sets (new_calls st st')) = Suc k \<and>
       length (created (new_calls st st')) = Suc k \<and>
       new_reads st st' = [0 ..< Suc k] \<and>
       outcome res = snd (sets (new_calls st st') ! k) \<and>
       unat (registered res) = k \<and>
       (\<forall>i \<ge> k. freed (Entry_value i) (new_calls st st') = []))"
proof -
  from set_properties_run [OF assms, of rt obj st] obtain res st' where
    run: "jerryx_set_properties rt fuel obj (Some entries) st = Some (Inr (res, st'))"
    and rd: "new_reads st st' = [0 ..< Suc (unat (registered res))]"
    and post: "loop_post rt entries (unat s) 0 res (new_calls st st')" by blast
  note D = loop_postD [OF post]
  have "fst (sets (new_calls st st') ! k) = entry_value (entries ! k) \<and>
       length (sets (new_calls st st')) = Suc k \<and>
       length (created (new_calls st st')) = Suc k \<and>
       new_reads st st' = [0 ..< Suc k] \<and>
       outcome res = snd (sets (new_calls st st') ! k) \<and>
       unat (registered res) = k \<and>
       (\<forall>i \<ge> k. freed (Entry_value i) (new_calls st st') = [])"
    if k: "k < length (sets (new_calls st st'))"
      and nb: "\<not> jerry_value_is_boolean rt (snd (sets (new_calls st st') ! k))" for k
  proof -
    from set_call_cases [OF post k] nb
    have c: "fst (sets (new_calls st st') ! k) = entry_value (entries ! k)"
      "k = unat (registered res)" "length (sets (new_calls st st')) = Suc k"
      "snd (sets (new_calls st st') ! k) = outcome res"
      by (auto split: if_splits)
    show ?thesis using c rd D(4) D(5) by (simp del: upt_Suc)
  qed
  then have stop: "\<forall>k. k < length (sets (new_calls st st')) \<and>
         \<not> jerry_value_is_boolean rt (snd (sets (new_calls st st') ! k)) \<longrightarrow>
       fst (sets (new_calls st st') ! k) = entry_value (entries ! k) \<and>
       length (sets (new_calls st st')) = Suc k \<and>
       length (created (new_calls st st')) = Suc k \<and>
       new_reads st st' = [0 ..< Suc k] \<and>
       outcome res = snd (sets (new_calls st st') ! k) \<and>
       unat (registered res) = k \<and>
       (\<forall>i \<ge> k. freed (Entry_value i) (new_calls st st') = [])" by blast
  have fr: "\<forall>i. freed (Entry_value i) (new_calls st st') =
       (if i < unat (registered res) then [entry_value (entries ! i)] else [])"
    using D(5) by simp
  from run rd run_shape [OF post] D(4) fr stop show ?thesis by blast
qed

theorem set_properties_first_failure_witness:
  "sentinel_at (demo_entries 13) 3 \<and> unat (3 :: uint32_t) < demo_fuel \<and>
   jerryx_set_properties demo_api demo_fuel 7 (Some (demo_entries 13)) st0 =
     Some (Inr (\<lparr>outcome = 1001, registered = 1\<rparr>, demo_fail_state)) \<and>
   sets (new_calls st0 demo_fail_state) = [(11, 2), (13, 1001)] \<and>
   \<not> jerry_value_is_boolean demo_api 1001 \<and>
   entry_value (demo_entries 13 ! 1) = 13 \<and>
   length (created (new_calls st0 demo_fail_state)) = 2 \<and>
   new_reads st0 demo_fail_state = [0, 1] \<and>
   freed (Entry_value 1) (new_calls st0 demo_fail_state) = [] \<and>
   freed (Entry_value 2) (new_calls st0 demo_fail_state) = []"
proof -
  from set_properties_first_failure 
    [OF demo_sentinel [of 13] demo_enough_fuel, where rt = demo_api and obj = 7 and st = st0]
  show ?thesis
    using demo_sentinel [of 13] demo_enough_fuel demo_fail_run
    by (simp add: new_calls_def new_reads_def st0_def demo_fail_state_def demo_api_def
        demo_entries_def)
qed

text \<open>
  Claim C2. For a non-null table whose first sentinel is at index \<open>s\<close>,
  \<^verbatim>\<open>jerryx_set_properties\<close> returns; if every \<^verbatim>\<open>jerry_object_set\<close> call of the run
  answered a boolean handle, the count is \<open>s\<close>, the outcome is the undefined value, a set
  call was made for each entry before the sentinel, in order, and the value of each of
  these entries has been released exactly once.
\<close>

theorem set_properties_all_registered:
  assumes "sentinel_at entries s" and "unat s < fuel"
  shows "\<exists>res st'. jerryx_set_properties rt fuel obj (Some entries) st = Some (Inr (res, st')) \<and>
    ((\<forall>p \<in> set (sets (new_calls st st')). jerry_value_is_boolean rt (snd p)) \<longrightarrow>
       registered res = s \<and>
       outcome res = jerry_undefined rt \<and>
       length (sets (new_calls st st')) = unat s \<and>
       (\<forall>i < unat s. fst (sets (new_calls st st') ! i) = entry_value (entries ! i)) \<and>
       (\<forall>i < unat s. freed (Entry_value i) (new_calls st st') = [entry_value (entries ! i)]))"
proof -
  from set_properties_run [OF assms, of rt obj st] obtain res st' where
    run: "jerryx_set_properties rt fuel obj (Some entries) st = Some (Inr (res, st'))"
    and post: "loop_post rt entries (unat s) 0 res (new_calls st st')" by blast
  note D = loop_postD [OF post]
  let ?evs = "new_calls st st'"
  have "registered res = s \<and> outcome res = jerry_undefined rt \<and>
       length (sets ?evs) = unat s \<and>
       (\<forall>i < unat s. fst (sets ?evs ! i) = entry_value (entries ! i)) \<and>
       (\<forall>i < unat s. freed (Entry_value i) ?evs = [entry_value (entries ! i)])"
    if all: "\<forall>p \<in> set (sets ?evs). jerry_value_is_boolean rt (snd p)"
  proof -
    have n: "unat (registered res) = unat s"
    proof (rule ccontr)
      assume "unat (registered res) \<noteq> unat s"
      with D(2) have lt: "unat (registered res) < unat s" by simp
      then have "outcome res \<in> set (map snd (sets ?evs))" by (simp add: D(7))
      then have "jerry_value_is_boolean rt (outcome res)" using all by auto
      with D(10) [OF lt] show False by simp
    qed
    have len: "length (sets ?evs) = unat s"
      using arg_cong [OF D(7), of length] D(8) n by simp
    have "fst (sets ?evs ! i) = entry_value (entries ! i)" if "i < unat s" for i
      using set_call_cases [OF post, of i] that len n by simp
    moreover have "registered res = s" using n by (simp add: word_unat_eq_iff)
    ultimately show ?thesis using n len D(11) D(5) by simp
  qed
  with run show ?thesis by blast
qed

theorem set_properties_all_registered_witness:
  "sentinel_at (demo_entries 14) 3 \<and> unat (3 :: uint32_t) < demo_fuel \<and>
   jerryx_set_properties demo_api demo_fuel 7 (Some (demo_entries 14)) st0 =
     Some (Inr (\<lparr>outcome = 0, registered = 3\<rparr>, demo_false_state)) \<and>
   map snd (sets (new_calls st0 demo_false_state)) = [2, 1, 2] \<and>
   jerry_value_is_boolean demo_api 2 \<and> jerry_value_is_boolean demo_api 1 \<and>
   jerry_undefined demo_api = 0 \<and>
   freed (Entry_value 0) (new_calls st0 demo_false_state) = [11] \<and>
   freed (Entry_value 1) (new_calls st0 demo_false_state) = [14] \<and>
   freed (Entry_value 2) (new_calls st0 demo_false_state) = [12]"
proof -
  from set_properties_all_registered 
    [OF demo_sentinel [of 14] demo_enough_fuel, where rt = demo_api and obj = 7 and st = st0]
  show ?thesis
    using demo_sentinel [of 14] demo_enough_fuel demo_false_run
    by (simp add: new_calls_def st0_def demo_false_state_def demo_api_def)
qed

text \<open>
  Claim C9. The test that stops the batch is \<^verbatim>\<open>jerry_value_is_boolean\<close> alone, whatever
  \<^verbatim>\<open>jerry_value_is_true\<close> says of the result. The run reads the entries from 0 to
  \<open>registered\<close> and makes a set call for each entry in table order until the sentinel or
  the first call that answers a non-boolean: it makes \<open>registered\<close> calls, and one more
  when it stopped before the sentinel. Every entry counted had its set call answer a
  boolean (true or false) and its value released once, and no other entry value is
  released. An entry whose set call answered a boolean is counted in \<open>registered\<close>, its
  value is released once and the loop goes on to read the next entry; a set call that
  answered a non-boolean is the one the loop stopped at, and its result is the outcome;
  when the loop stopped before the sentinel the outcome is the result of the last set
  call and is not a boolean, and when it reached the sentinel the outcome is the
  undefined value.
\<close>

theorem boolean_false_counts_as_registered:
  assumes "sentinel_at entries s" and "unat s < fuel"
  shows "\<exists>res st'. jerryx_set_properties rt fuel obj (Some entries) st = Some (Inr (res, st')) \<and>
    new_reads st st' = [0 ..< Suc (unat (registered res))] \<and>
    length (sets (new_calls st st')) =
      unat (registered res) + (if registered res \<noteq> s then 1 else 0) \<and>
    (\<forall>k < length (sets (new_calls st st')).
       fst (sets (new_calls st st') ! k) = entry_value (entries ! k)) \<and>
    (\<forall>k < unat (registered res).
       jerry_value_is_boolean rt (snd (sets (new_calls st st') ! k)) \<and>
       freed (Entry_value k) (new_calls st st') = [entry_value (entries ! k)]) \<and>
    (\<forall>i \<ge> unat (registered res). freed (Entry_value i) (new_calls st st') = []) \<and>
    (registered res \<noteq> s \<longrightarrow>
       outcome res = snd (sets (new_calls st st') ! unat (registered res))) \<and>
    (registered res = s \<longrightarrow> outcome res = jerry_undefined rt) \<and>
    (\<forall>k < length (sets (new_calls st st')).
       (jerry_value_is_boolean rt (snd (sets (new_calls st st') ! k)) \<longrightarrow>
          k < unat (registered res) \<and>
          freed (Entry_value k) (new_calls st st') = [entry_value (entries ! k)] \<and>
          Suc k \<in> set (new_reads st st')) \<and>
       (\<not> jerry_value_is_boolean rt (snd (sets (new_calls st st') ! k)) \<longrightarrow>
          unat (registered res) = k \<and> outcome res = snd (sets (new_calls st st') ! k))) \<and>
    (registered res \<noteq> s \<longrightarrow> \<not> jerry_value_is_boolean rt (outcome res))"
proof -
  from set_properties_run [OF assms, of rt obj st] obtain res st' where
    run: "jerryx_set_properties rt fuel obj (Some entries) st = Some (Inr (res, st'))"
    and rd: "new_reads st st' = [0 ..< Suc (unat (registered res))]"
    and post: "loop_post rt entries (unat s) 0 res (new_calls st st')" by blast
  note D = loop_postD [OF post]
  let ?evs = "new_calls st st'"
  have per_call: "(jerry_value_is_boolean rt (snd (sets ?evs ! k)) \<longrightarrow>
          k < unat (registered res) \<and>
          freed (Entry_value k) ?evs = [entry_value (entries ! k)] \<and>
          Suc k \<in> set (new_reads st st')) \<and>
       (\<not> jerry_value_is_boolean rt (snd (sets ?evs ! k)) \<longrightarrow>
          unat (registered res) = k \<and> outcome res = snd (sets ?evs ! k))"
    if k: "k < length (sets ?evs)" for k
  proof (cases "k < unat (registered res)")
    case True
    with set_call_cases [OF post k] rd D(5) show ?thesis by (simp del: upt_Suc)
  next
    case False
    with set_call_cases [OF post k] show ?thesis by auto
  qed
  have stop: "registered res \<noteq> s \<longrightarrow> \<not> jerry_value_is_boolean rt (outcome res)"
  proof
    assume "registered res \<noteq> s"
    then have "unat (registered res) \<noteq> unat s" by (simp add: word_unat_eq_iff)
    with D(2) have "unat (registered res) < unat s" by simp
    then show "\<not> jerry_value_is_boolean rt (outcome res)" by (rule D(10))
  qed
  have counted: "\<forall>k < unat (registered res).
       jerry_value_is_boolean rt (snd (sets ?evs ! k)) \<and>
       freed (Entry_value k) ?evs = [entry_value (entries ! k)]"
    using run_shape(3) [OF post] D(5) by simp
  have rest: "\<forall>i \<ge> unat (registered res). freed (Entry_value i) ?evs = []"
    using D(5) by simp
  from run rd run_shape(1,2,4,5) [OF post] counted rest per_call stop show ?thesis by blast
qed

theorem boolean_false_counts_as_registered_witness:
  "sentinel_at (demo_entries 14) 3 \<and> unat (3 :: uint32_t) < demo_fuel \<and>
   jerryx_set_properties demo_api demo_fuel 7 (Some (demo_entries 14)) st0 =
     Some (Inr (\<lparr>outcome = 0, registered = 3\<rparr>, demo_false_state)) \<and>
   sets (new_calls st0 demo_false_state) = [(11, 2), (14, 1), (12, 2)] \<and>
   sets (new_calls st0 demo_false_state) ! 1 = (14, 1) \<and>
   jerry_value_is_boolean demo_api 1 \<and> \<not> jerry_value_is_true demo_api 1 \<and>
   1 < unat (3 :: uint32_t) \<and>
   freed (Entry_value 1) (new_calls st0 demo_false_state) = [14] \<and>
   Suc 1 \<in> set (new_reads st0 demo_false_state)"
proof -
  from boolean_false_counts_as_registered [OF demo_sentinel [of 14] demo_enough_fuel,
      where rt = demo_api and obj = 7 and st = st0]
  show ?thesis
    using demo_sentinel [of 14] demo_enough_fuel demo_false_run
    by (simp add: new_calls_def new_reads_def st0_def demo_false_state_def demo_api_def)
qed

text \<open>
  Claim C4, as the code has it. When \<^verbatim>\<open>jerryx_set_properties\<close> stops at a failing entry
  (the count is not the sentinel index), the results the loop has released are those of
  the set calls before the failing one; the result of the failing set call is not
  released but returned as the outcome, for the caller to release. The name handle of
  every iteration, the failing one included, is released, and the value of the failing
  entry is not: with \<open>k\<close> entries counted the run has made \<open>3 * k + 1\<close> releases, three
  for each entry counted and the name handle of the failing iteration.
\<close>

theorem failed_set_result_is_outcome:
  assumes "sentinel_at entries s" and "unat s < fuel"
    and "jerryx_set_properties rt fuel obj (Some entries) st = Some (Inr (res, st'))"
    and "registered res \<noteq> s"
  shows "map snd (sets (new_calls st st')) = freed Op_result (new_calls st st') @ [outcome res] \<and>
    length (freed Op_result (new_calls st st')) = unat (registered res) \<and>
    \<not> jerry_value_is_boolean rt (outcome res) \<and>
    created (new_calls st st') = freed Prop_name (new_calls st st') \<and>
    length (created (new_calls st st')) = Suc (unat (registered res)) \<and>
    freed (Entry_value (unat (registered res))) (new_calls st st') = [] \<and>
    length (all_freed (new_calls st st')) = 3 * unat (registered res) + 1"
proof -
  from set_properties_run [OF assms(1,2), of rt obj st] assms(3)
  have post: "loop_post rt entries (unat s) 0 res (new_calls st st')" by auto
  note D = loop_postD [OF post]
  from assms(4) have "unat (registered res) \<noteq> unat s" by (simp add: word_unat_eq_iff)
  with D(2) have lt: "unat (registered res) < unat s" by simp
  have len: "length (sets (new_calls st st')) = Suc (unat (registered res))"
    using arg_cong [OF D(7), of length] D(8) lt by simp
  show ?thesis using lt len D(3) D(4) D(5) D(7) D(8) D(10) D(12) by simp
qed

theorem failed_set_result_is_outcome_witness:
  "sentinel_at (demo_entries 13) 3 \<and> unat (3 :: uint32_t) < demo_fuel \<and>
   jerryx_set_properties demo_api demo_fuel 7 (Some (demo_entries 13)) st0 =
     Some (Inr (\<lparr>outcome = 1001, registered = 1\<rparr>, demo_fail_state)) \<and>
   (1 :: uint32_t) \<noteq> 3 \<and>
   map snd (sets (new_calls st0 demo_fail_state)) = [2, 1001] \<and>
   freed Op_result (new_calls st0 demo_fail_state) = [2] \<and>
   created (new_calls st0 demo_fail_state) = [100, 105] \<and>
   freed Prop_name (new_calls st0 demo_fail_state) = [100, 105] \<and>
   freed (Entry_value 1) (new_calls st0 demo_fail_state) = [] \<and>
   all_freed (new_calls st0 demo_fail_state) = [100, 11, 2, 105]"
proof -
  have ne: "registered \<lparr>outcome = 1001 :: jerry_value_t, registered = 1 :: uint32_t\<rparr> \<noteq> 3"
    by simp
  from failed_set_result_is_outcome [OF demo_sentinel [of 13] demo_enough_fuel demo_fail_run ne]
  show ?thesis
    using demo_sentinel [of 13] demo_enough_fuel demo_fail_run
    by (simp add: new_calls_def st0_def demo_fail_state_def)
qed

text \<open>
  Claim C4 as stated says that the handle the failed set call returned is released inside
  \<^verbatim>\<open>jerryx_set_properties\<close>. On \<open>demo_entries 13\<close> the set call of \<^verbatim>\<open>b\<close> returns the
  exception 1001, the function returns it as outcome, and the handles it has released
  are 100, 11, 2 and 105: 1001 is not among them.
\<close>

theorem failed_set_result_not_released:
  "jerryx_set_properties demo_api demo_fuel 7 (Some (demo_entries 13)) st0 =
     Some (Inr (\<lparr>outcome = 1001, registered = 1\<rparr>, demo_fail_state)) \<and>
   sets (new_calls st0 demo_fail_state) = [(11, 2), (13, 1001)] \<and>
   \<not> jerry_value_is_boolean demo_api 1001 \<and>
   all_freed (new_calls st0 demo_fail_state) = [100, 11, 2, 105] \<and>
   1001 \<notin> set (all_freed (new_calls st0 demo_fail_state))"
  using demo_fail_run
  by (simp add: new_calls_def st0_def demo_fail_state_def demo_api_def)

section \<open>Cleanup\<close>

text \<open>
  Claim C3. Given a non-null table whose first sentinel is at index \<open>s\<close> and the result
  \<^verbatim>\<open>jerryx_set_properties\<close> returned for it, \<^verbatim>\<open>jerryx_release_property_entry\<close> returns
  and its runtime calls are exactly the releases of the values of the entries at the
  indices from \<open>registered\<close> up to \<open>s\<close> (not included), once each and in order; nothing
  below \<open>registered\<close> is released, and after a fully successful registration
  (\<open>registered = s\<close>) nothing is released at all.
\<close>

theorem release_after_registration:
  assumes "sentinel_at entries s" and "unat s < fuel" and "unat s < fuel'"
    and "jerryx_set_properties rt fuel obj (Some entries) st = Some (Inr (res, st1))"
  shows "\<exists>st2. jerryx_release_property_entry fuel' (Some entries) res st1 = Some (Inr st2) \<and>
    new_calls st1 st2 =
      map (\<lambda>i. Value_free (Entry_value i) (entry_value (entries ! i)))
        [unat (registered res) ..< unat s] \<and>
    (\<forall>i. freed (Entry_value i) (new_calls st1 st2) =
       (if unat (registered res) \<le> i \<and> i < unat s then [entry_value (entries ! i)] else [])) \<and>
    (registered res = s \<longrightarrow> new_calls st1 st2 = [])"
proof -
  from set_properties_run [OF assms(1,2), of rt obj st] assms(4)
  have "loop_post rt entries (unat s) 0 res (new_calls st st1)" by auto
  then have le: "unat (registered res) \<le> unat s" by (rule loop_postD(2))
  then have "unat s - unat (registered res) < fuel'" using assms(3) by simp
  from release_total [OF assms(1) le this, of st1]
  have rel: "jerryx_release_property_entry fuel' (Some entries) res st1 =
      Some (Inr (st1\<lparr>reads := reads st1 @ [unat (registered res) ..< Suc (unat s)],
         calls := calls st1 @
           map (\<lambda>i. Value_free (Entry_value i) (entry_value (entries ! i)))
             [unat (registered res) ..< unat s]\<rparr>))"
    by (simp add: jerryx_release_property_entry_def)
  show ?thesis
    unfolding rel
    by (intro exI conjI, rule refl)
      (auto simp add: new_calls_def freed_released_range)
qed

theorem release_after_registration_witness:
  "sentinel_at (demo_entries 13) 3 \<and> unat (3 :: uint32_t) < demo_fuel \<and>
   jerryx_set_properties demo_api demo_fuel 7 (Some (demo_entries 13)) st0 =
     Some (Inr (\<lparr>outcome = 1001, registered = 1\<rparr>, demo_fail_state)) \<and>
   jerryx_release_property_entry demo_fuel (Some (demo_entries 13))
     \<lparr>outcome = 1001, registered = 1\<rparr> demo_fail_state = Some (Inr demo_released_state) \<and>
   new_calls demo_fail_state demo_released_state =
     [Value_free (Entry_value 1) 13, Value_free (Entry_value 2) 12] \<and>
   map (\<lambda>i. Value_free (Entry_value i) (entry_value (demo_entries 13 ! i)))
       [unat (registered \<lparr>outcome = 1001 :: jerry_value_t, registered = 1 :: uint32_t\<rparr>)
          ..< unat (3 :: uint32_t)] =
     [Value_free (Entry_value 1) 13, Value_free (Entry_value 2) 12]"
proof -
  from release_after_registration
    [OF demo_sentinel demo_enough_fuel demo_enough_fuel demo_fail_run]
  show ?thesis
    using demo_sentinel [of 13] demo_enough_fuel demo_fail_run demo_release_run
    by (simp add: new_calls_def demo_fail_state_def demo_released_state_def)
qed

section \<open>An absent table\<close>

text \<open>
  Claim C5. With a \<^verbatim>\<open>NULL\<close> table, \<^verbatim>\<open>jerryx_set_properties\<close> returns the undefined value
  and the count 0, and \<^verbatim>\<open>jerryx_release_property_entry\<close> returns; both leave the state
  as it was (no runtime call logged, no entry read), whatever the fuel, and neither is an
  error.
\<close>

theorem absent_table_is_noop:
  "jerryx_set_properties rt fuel obj None st =
     Some (Inr (\<lparr>outcome = jerry_undefined rt, registered = 0\<rparr>, st)) \<and>
   jerryx_release_property_entry fuel' None res st = Some (Inr st)"
  by (simp add: jerryx_set_properties_def jerryx_release_property_entry_def)

section \<open>Reads of the entry table\<close>

text \<open>
  Claim C8. For a table whose first sentinel is at index \<open>s\<close>, \<^verbatim>\<open>jerryx_set_properties\<close>
  and the \<^verbatim>\<open>jerryx_release_property_entry\<close> that follows it with its result both return
  without reading outside the array, and every index they read is at most \<open>s\<close>: the
  first reads the indices from 0 to \<open>registered\<close>, the second those from \<open>registered\<close>
  to \<open>s\<close>. The cleanup does so for any result whose count is at most \<open>s\<close>.
\<close>

theorem reads_stay_within_sentinel:
  assumes "sentinel_at entries s" and "unat s < fuel" and "unat s < fuel'"
  shows "\<exists>res st1 st2.
    jerryx_set_properties rt fuel obj (Some entries) st = Some (Inr (res, st1)) \<and>
    jerryx_release_property_entry fuel' (Some entries) res st1 = Some (Inr st2) \<and>
    new_reads st st1 = [0 ..< Suc (unat (registered res))] \<and>
    new_reads st1 st2 = [unat (registered res) ..< Suc (unat s)] \<and>
    (\<forall>i \<in> set (new_reads st st1). i \<le> unat s) \<and>
    (\<forall>i \<in> set (new_reads st1 st2). i \<le> unat s) \<and>
    (\<forall>r st3. unat (registered r) \<le> unat s \<longrightarrow>
       (\<exists>st4. jerryx_release_property_entry fuel' (Some entries) r st3 = Some (Inr st4) \<and>
          new_reads st3 st4 = [unat (registered r) ..< Suc (unat s)]))"
proof -
  from set_properties_run [OF assms(1,2), of rt obj st] obtain res st1 where
    run: "jerryx_set_properties rt fuel obj (Some entries) st = Some (Inr (res, st1))"
    and rd: "new_reads st st1 = [0 ..< Suc (unat (registered res))]"
    and post: "loop_post rt entries (unat s) 0 res (new_calls st st1)" by blast
  from post have le: "unat (registered res) \<le> unat s" by (rule loop_postD(2))
  then have "unat s - unat (registered res) < fuel'" using assms(3) by simp
  from release_total [OF assms(1) le this, of st1]
  have rel: "jerryx_release_property_entry fuel' (Some entries) res st1 =
      Some (Inr (st1\<lparr>reads := reads st1 @ [unat (registered res) ..< Suc (unat s)],
         calls := calls st1 @
           map (\<lambda>i. Value_free (Entry_value i) (entry_value (entries ! i)))
             [unat (registered res) ..< unat s]\<rparr>))"
    by (simp add: jerryx_release_property_entry_def)
  define st2 where "st2 = st1\<lparr>reads := reads st1 @ [unat (registered res) ..< Suc (unat s)],
         calls := calls st1 @
           map (\<lambda>i. Value_free (Entry_value i) (entry_value (entries ! i)))
             [unat (registered res) ..< unat s]\<rparr>"
  have rd2: "new_reads st1 st2 = [unat (registered res) ..< Suc (unat s)]"
    by (simp add: st2_def new_reads_def del: upt_Suc)
  have b1: "\<forall>i \<in> set (new_reads st st1). i \<le> unat s" using rd le by (auto simp del: upt_Suc)
  have b2: "\<forall>i \<in> set (new_reads st1 st2). i \<le> unat s" using rd2 by (auto simp del: upt_Suc)
  have any: "\<exists>st4. jerryx_release_property_entry fuel' (Some entries) r st3 = Some (Inr st4) \<and>
          new_reads st3 st4 = [unat (registered r) ..< Suc (unat s)]"
    if r: "unat (registered r) \<le> unat s" for r st3
  proof -
    from r assms(3) have "unat s - unat (registered r) < fuel'" by simp
    from release_total [OF assms(1) r this, of st3] show ?thesis
      by (simp add: jerryx_release_property_entry_def new_reads_def del: upt_Suc)
  qed
  from run rel [folded st2_def] rd rd2 b1 b2 any show ?thesis by blast
qed

theorem reads_stay_within_sentinel_witness:
  "sentinel_at (demo_entries 13) 3 \<and> unat (3 :: uint32_t) < demo_fuel \<and>
   jerryx_set_properties demo_api demo_fuel 7 (Some (demo_entries 13)) st0 =
     Some (Inr (\<lparr>outcome = 1001, registered = 1\<rparr>, demo_fail_state)) \<and>
   jerryx_release_property_entry demo_fuel (Some (demo_entries 13))
     \<lparr>outcome = 1001, registered = 1\<rparr> demo_fail_state = Some (Inr demo_released_state) \<and>
   new_reads st0 demo_fail_state = [0, 1] \<and>
   new_reads demo_fail_state demo_released_state = [1, 2, 3]"
proof -
  from reads_stay_within_sentinel [OF demo_sentinel [of 13] demo_enough_fuel demo_enough_fuel,
      where rt = demo_api and obj = 7 and st = st0]
  show ?thesis
    using demo_sentinel [of 13] demo_enough_fuel demo_fail_run demo_release_run
    by (simp add: new_reads_def st0_def demo_fail_state_def demo_released_state_def)
qed

section \<open>Named-property accessors and the transient name handle\<close>

text \<open>
  Claim C6. \<^verbatim>\<open>jerryx_has_property_str\<close> makes one \<^verbatim>\<open>jerry_object_has\<close> call and answers
  true if and only if the result of that call is not an exception and is the true value;
  when the result is an exception it answers false, so that false is the answer both for
  an absent property and for a failed check.
\<close>

theorem has_property_collapses_errors:
  assumes "h = jerry_string_sz rt (calls st) str"
    and "r = jerry_object_has rt (calls st @ [String_sz str h]) obj h"
  shows "new_calls st (snd (jerryx_has_property_str rt obj str st)) =
      [String_sz str h, Object_has obj h r, Value_free Op_result r, Value_free Prop_name h] \<and>
    (fst (jerryx_has_property_str rt obj str st) \<longleftrightarrow>
       \<not> jerry_value_is_exception rt r \<and> jerry_value_is_true rt r) \<and>
    (jerry_value_is_exception rt r \<longrightarrow> \<not> fst (jerryx_has_property_str rt obj str st)) \<and>
    (\<not> fst (jerryx_has_property_str rt obj str st) \<longleftrightarrow>
       jerry_value_is_exception rt r \<or> \<not> jerry_value_is_true rt r)"
  using assms
  by (simp add: jerryx_has_property_str_def string_sz_def object_has_def value_free_def
      log_call_def new_calls_def Let_def)

theorem has_property_collapses_errors_witness:
  "jerry_string_sz demo_api (calls st0) ''x'' = 100 \<and>
   jerry_object_has demo_api (calls st0 @ [String_sz ''x'' 100]) 9 100 = 1001 \<and>
   jerry_value_is_exception demo_api 1001 \<and>
   \<not> fst (jerryx_has_property_str demo_api 9 ''x'' st0) \<and>
   new_calls st0 (snd (jerryx_has_property_str demo_api 9 ''x'' st0)) =
      [String_sz ''x'' 100, Object_has 9 100 1001, Value_free Op_result 1001,
       Value_free Prop_name 100] \<and>
   jerry_object_has demo_api (calls st0 @ [String_sz ''x'' 100]) 5 100 = 1 \<and>
   \<not> jerry_value_is_exception demo_api 1 \<and> \<not> jerry_value_is_true demo_api 1 \<and>
   \<not> fst (jerryx_has_property_str demo_api 5 ''x'' st0) \<and>
   fst (jerryx_has_property_str demo_api 8 ''x'' st0)"
proof -
  have h: "(100 :: jerry_value_t) = jerry_string_sz demo_api (calls st0) ''x''"
    by (simp add: demo_api_def st0_def)
  have r: "(1001 :: jerry_value_t) =
      jerry_object_has demo_api (calls st0 @ [String_sz ''x'' 100]) 9 100"
    by (simp add: demo_api_def)
  from has_property_collapses_errors [OF h r]
  show ?thesis
    by (simp add: demo_api_def st0_def jerryx_has_property_str_def string_sz_def object_has_def
        value_free_def log_call_def)
qed

text \<open>
  Claim C7. The name handles created by \<^verbatim>\<open>jerry_string_sz\<close> are released once each,
  whatever the runtime answers to the operation that follows: in a run of
  \<^verbatim>\<open>jerryx_set_properties\<close> the handles created and the handles released as name handles
  are the same list, one per set call; \<^verbatim>\<open>jerryx_set_property_str\<close>,
  \<^verbatim>\<open>jerryx_get_property_str\<close> and \<^verbatim>\<open>jerryx_has_property_str\<close> each create one name handle
  and release that handle once.
\<close>

theorem name_handles_released_once:
  "(sentinel_at entries s \<and> unat s < fuel \<longrightarrow>
      (\<exists>res st'. jerryx_set_properties rt fuel obj (Some entries) st = Some (Inr (res, st')) \<and>
         created (new_calls st st') = freed Prop_name (new_calls st st') \<and>
         length (created (new_calls st st')) = length (sets (new_calls st st')))) \<and>
   (\<exists>h. created (new_calls st (snd (jerryx_set_property_str rt obj str v st))) = [h] \<and>
        freed Prop_name (new_calls st (snd (jerryx_set_property_str rt obj str v st))) = [h]) \<and>
   (\<exists>h. created (new_calls st (snd (jerryx_get_property_str rt obj str st))) = [h] \<and>
        freed Prop_name (new_calls st (snd (jerryx_get_property_str rt obj str st))) = [h]) \<and>
   (\<exists>h. created (new_calls st (snd (jerryx_has_property_str rt obj str st))) = [h] \<and>
        freed Prop_name (new_calls st (snd (jerryx_has_property_str rt obj str st))) = [h])"
proof (intro conjI impI)
  assume "sentinel_at entries s \<and> unat s < fuel"
  then have a: "sentinel_at entries s" "unat s < fuel" by simp_all
  from set_properties_run [OF a, of rt obj st] obtain res st' where
    run: "jerryx_set_properties rt fuel obj (Some entries) st = Some (Inr (res, st'))"
    and post: "loop_post rt entries (unat s) 0 res (new_calls st st')" by blast
  from run loop_postD(3,4) [OF post]
  show "\<exists>res st'. jerryx_set_properties rt fuel obj (Some entries) st = Some (Inr (res, st')) \<and>
         created (new_calls st st') = freed Prop_name (new_calls st st') \<and>
         length (created (new_calls st st')) = length (sets (new_calls st st'))"
    by blast
next
  show "\<exists>h. created (new_calls st (snd (jerryx_set_property_str rt obj str v st))) = [h] \<and>
        freed Prop_name (new_calls st (snd (jerryx_set_property_str rt obj str v st))) = [h]"
    by (simp add: jerryx_set_property_str_def string_sz_def object_set_def value_free_def
        log_call_def new_calls_def Let_def)
next
  show "\<exists>h. created (new_calls st (snd (jerryx_get_property_str rt obj str st))) = [h] \<and>
        freed Prop_name (new_calls st (snd (jerryx_get_property_str rt obj str st))) = [h]"
    by (simp add: jerryx_get_property_str_def string_sz_def object_get_def value_free_def
        log_call_def new_calls_def Let_def)
next
  show "\<exists>h. created (new_calls st (snd (jerryx_has_property_str rt obj str st))) = [h] \<and>
        freed Prop_name (new_calls st (snd (jerryx_has_property_str rt obj str st))) = [h]"
    by (simp add: jerryx_has_property_str_def string_sz_def object_has_def value_free_def
        log_call_def new_calls_def Let_def)
qed

theorem name_handles_released_once_witness:
  "sentinel_at (demo_entries 13) 3 \<and> unat (3 :: uint32_t) < demo_fuel \<and>
   jerryx_set_properties demo_api demo_fuel 7 (Some (demo_entries 13)) st0 =
     Some (Inr (\<lparr>outcome = 1001, registered = 1\<rparr>, demo_fail_state)) \<and>
   created (new_calls st0 demo_fail_state) = [100, 105] \<and>
   freed Prop_name (new_calls st0 demo_fail_state) = [100, 105] \<and>
   sets (new_calls st0 demo_fail_state) = [(11, 2), (13, 1001)] \<and>
   jerryx_set_property_str demo_api 7 ''b'' 13 st0 =
     (1001, \<lparr>calls = [String_sz ''b'' 100, Object_set 7 100 13 1001, Value_free Prop_name 100],
             reads = []\<rparr>)"
proof -
  from name_handles_released_once
    [where entries = "demo_entries 13" and s = 3 and fuel = demo_fuel and rt = demo_api
       and obj = 7 and st = st0 and str = "''b''" and v = 13]
  show ?thesis
    using demo_sentinel [of 13] demo_enough_fuel demo_fail_run
    by (simp add: new_calls_def st0_def demo_fail_state_def demo_api_def
        jerryx_set_property_str_def string_sz_def object_set_def value_free_def log_call_def)
qed

end
